theory Spec2Isabelle
  imports
    Main
    "HOL-Library.Word"
    "HOL-Library.Char_ord"
    "HOL-Library.List_Lexorder"
    "HOL-Library.Multiset"
begin

section \<open>The configurator's accessors (pkg/configurator/methods.go)\<close>

text \<open>
  A Go \<open>string\<close> is a sequence of bytes, and so is \<^typ>\<open>string\<close> here: \<open>length\<close>
  counts bytes and the order on strings (\<open>Char_ord\<close> with \<open>List_Lexorder\<close>) compares
  byte by byte, a proper prefix coming first, as Go's \<open><\<close> on strings and
  \<open>sort.Strings\<close> do.
\<close>

type_synonym byte = "8 word"

subsection \<open>The functions of package strings that the accessors call\<close>

text \<open>
  \<open>strings.ReplaceAll(s, old, new)\<close> where \<open>old\<close> and \<open>new\<close> are one byte each (the source
  calls it with \<open>" "\<close> and \<open>","\<close>): every occurrence of the byte is replaced.
\<close>

definition ReplaceAll :: "string \<Rightarrow> char \<Rightarrow> char \<Rightarrow> string" where
  "ReplaceAll s old new = map (\<lambda>c. if c = old then new else c) s"

text \<open>
  \<open>strings.Split(s, sep)\<close> for a one-byte separator: the substrings between the
  separators, one more than there are separators; the empty string gives one empty
  substring.
\<close>

fun Split :: "string \<Rightarrow> char \<Rightarrow> string list" where
  "Split [] sep = [[]]"
| "Split (c # cs) sep =
     (if c = sep then [] # Split cs sep
      else (case Split cs sep of
              [] \<Rightarrow> [[c]]
            | t # ts \<Rightarrow> (c # t) # ts))"

text \<open>
  \<open>strings.Trim(s, cutset)\<close> for a cutset of ASCII bytes: the leading and the trailing
  bytes that are in the cutset are removed.
\<close>

definition Trim :: "string \<Rightarrow> string \<Rightarrow> string" where
  "Trim s cutset =
     rev (dropWhile (\<lambda>c. c \<in> set cutset) (rev (dropWhile (\<lambda>c. c \<in> set cutset) s)))"

text \<open>\<open>strings.Join(elems, sep)\<close>.\<close>

fun Join :: "string list \<Rightarrow> string \<Rightarrow> string" where
  "Join [] sep = []"
| "Join [x] sep = x"
| "Join (x # y # ys) sep = x @ sep @ Join (y # ys) sep"

subsection \<open>net.ParseCIDR\<close>

text \<open>
  The parser of Go's standard library (package net, as of the Go 1.15 toolchain the
  repository was written for): \<open>dtoi\<close>, \<open>xtoi\<close>, \<open>parseIPv4\<close>, \<open>parseIPv6\<close>, \<open>CIDRMask\<close>,
  \<open>IP.Mask\<close> and \<open>ParseCIDR\<close>. A failed parse, \<open>nil\<close> or a non-nil \<open>error\<close> in Go,
  is \<open>None\<close>. Go's \<open>int\<close> is \<^typ>\<open>int\<close>: both number readers stop at \<open>big\<close>, far below
  the range of a 64-bit integer, so nothing wraps.
\<close>

definition IPv4len :: nat where "IPv4len = 4"
definition IPv6len :: nat where "IPv6len = 16"
definition big :: int where "big = 0xFFFFFF"

type_synonym IP = "byte list"
type_synonym IPMask = "byte list"

record IPNet =
  IP :: IP
  Mask :: IPMask

text \<open>
  \<open>dtoi(s)\<close>: the decimal number at the start of \<open>s\<close>, the number of bytes read and
  whether a number was read. The loop carries the unread rest of \<open>s\<close>, \<open>n\<close> and \<open>i\<close>.
\<close>

fun dtoi_loop :: "string \<Rightarrow> int \<Rightarrow> nat \<Rightarrow> int \<times> nat \<times> bool" where
  "dtoi_loop [] n i = (if i = 0 then (0, 0, False) else (n, i, True))"
| "dtoi_loop (c # cs) n i =
     (if CHR ''0'' \<le> c \<and> c \<le> CHR ''9'' then
        (let n' = n * 10 + (of_char c - of_char CHR ''0'')
         in if n' \<ge> big then (big, i, False) else dtoi_loop cs n' (i + 1))
      else (if i = 0 then (0, 0, False) else (n, i, True)))"

definition dtoi :: "string \<Rightarrow> int \<times> nat \<times> bool" where
  "dtoi s = dtoi_loop s 0 0"

text \<open>\<open>xtoi(s)\<close>: the same for a hexadecimal number.\<close>

fun xtoi_loop :: "string \<Rightarrow> int \<Rightarrow> nat \<Rightarrow> int \<times> nat \<times> bool" where
  "xtoi_loop [] n i = (if i = 0 then (0, i, False) else (n, i, True))"
| "xtoi_loop (c # cs) n i =
     (if CHR ''0'' \<le> c \<and> c \<le> CHR ''9'' then
        (let n' = n * 16 + (of_char c - of_char CHR ''0'')
         in if n' \<ge> big then (0, i, False) else xtoi_loop cs n' (i + 1))
      else if CHR ''a'' \<le> c \<and> c \<le> CHR ''f'' then
        (let n' = n * 16 + (of_char c - of_char CHR ''a'') + 10
         in if n' \<ge> big then (0, i, False) else xtoi_loop cs n' (i + 1))
      else if CHR ''A'' \<le> c \<and> c \<le> CHR ''F'' then
        (let n' = n * 16 + (of_char c - of_char CHR ''A'') + 10
         in if n' \<ge> big then (0, i, False) else xtoi_loop cs n' (i + 1))
      else (if i = 0 then (0, i, False) else (n, i, True)))"

definition xtoi :: "string \<Rightarrow> int \<times> nat \<times> bool" where
  "xtoi s = xtoi_loop s 0 0"

definition v4InV6Prefix :: "byte list" where
  "v4InV6Prefix = [0, 0, 0, 0, 0, 0, 0, 0, 0, 0, 0xff, 0xff]"

text \<open>\<open>IPv4(a, b, c, d)\<close>: the 16-byte form of an IPv4 address.\<close>

definition IPv4 :: "byte \<Rightarrow> byte \<Rightarrow> byte \<Rightarrow> byte \<Rightarrow> IP" where
  "IPv4 a b c d = v4InV6Prefix @ [a, b, c, d]"

text \<open>
  \<open>parseIPv4(s)\<close>: four decimal octets separated by dots and nothing else. The loop
  carries the index \<open>i\<close>, the unread rest of \<open>s\<close> and the octets \<open>p\<close> read so far.
\<close>

function parseIPv4_loop :: "nat \<Rightarrow> string \<Rightarrow> byte list \<Rightarrow> (string \<times> byte list) option" where
  "parseIPv4_loop i s p =
     (if i < IPv4len then
        (if length s = 0 then None
         else
           (case (if i > 0 then (if hd s \<noteq> CHR ''.'' then None else Some (tl s)) else Some s) of
              None \<Rightarrow> None
            | Some s1 \<Rightarrow>
                (case dtoi s1 of
                   (n, c, ok) \<Rightarrow>
                     if \<not> ok \<or> n > 0xFF then None
                     else parseIPv4_loop (i + 1) (drop c s1) (p[i := of_int n]))))
      else Some (s, p))"
  by pat_completeness auto
termination
  by (relation "measure (\<lambda>(i, s, p). IPv4len - i)") auto

declare parseIPv4_loop.simps [simp del]

definition parseIPv4 :: "string \<Rightarrow> IP option" where
  "parseIPv4 s =
     (case parseIPv4_loop 0 s (replicate IPv4len 0) of
        None \<Rightarrow> None
      | Some (s', p) \<Rightarrow>
          if length s' \<noteq> 0 then None
          else Some (IPv4 (p ! 0) (p ! 1) (p ! 2) (p ! 3)))"

text \<open>
  \<open>parseIPv6(s)\<close>. The loop reads 16-bit groups separated by colons into \<open>ip\<close>; it
  carries \<open>ip\<close>, the index \<open>i\<close>, the unread rest of \<open>s\<close> and the position of the
  ellipsis \<open>::\<close> (\<open>-1\<close> when there is none yet), and hands them to the code after it.
\<close>

function parseIPv6_loop ::
  "IP \<Rightarrow> nat \<Rightarrow> string \<Rightarrow> int \<Rightarrow> (IP \<times> nat \<times> string \<times> int) option" where
  "parseIPv6_loop ip i s ellipsis =
     (if i < IPv6len then
        (case xtoi s of
           (n, c, ok) \<Rightarrow>
             if \<not> ok \<or> n > 0xFFFF then None
             else if c < length s \<and> s ! c = CHR ''.'' then
               (if ellipsis < 0 \<and> i \<noteq> IPv6len - IPv4len then None
                else if i + IPv4len > IPv6len then None
                else
                  (case parseIPv4 s of
                     None \<Rightarrow> None
                   | Some ip4 \<Rightarrow>
                       Some (ip[i := ip4 ! 12, i + 1 := ip4 ! 13,
                                i + 2 := ip4 ! 14, i + 3 := ip4 ! 15],
                             i + IPv4len, [], ellipsis)))
             else
               (if length (drop c s) = 0 then
                  Some (ip[i := of_int (n div 256), i + 1 := of_int n], i + 2, drop c s, ellipsis)
                else if hd (drop c s) \<noteq> CHR '':'' \<or> length (drop c s) = 1 then None
                else if hd (drop (c + 1) s) = CHR '':'' then
                  (if ellipsis \<ge> 0 then None
                   else if length (drop (c + 2) s) = 0 then
                     Some (ip[i := of_int (n div 256), i + 1 := of_int n], i + 2,
                           drop (c + 2) s, int (i + 2))
                   else
                     parseIPv6_loop (ip[i := of_int (n div 256), i + 1 := of_int n]) (i + 2)
                       (drop (c + 2) s) (int (i + 2)))
                else
                  parseIPv6_loop (ip[i := of_int (n div 256), i + 1 := of_int n]) (i + 2)
                    (drop (c + 1) s) ellipsis))
      else Some (ip, i, s, ellipsis))"
  by pat_completeness auto
termination
  by (relation "measure (\<lambda>(ip, i, s, ellipsis). IPv6len - i)") (auto simp: IPv6len_def)

declare parseIPv6_loop.simps [simp del]

text \<open>
  The ellipsis is expanded by two loops that count \<open>j\<close> down: the groups read after
  it move to the end of \<open>ip\<close>, and the gap is filled with zeros.
\<close>

definition expand_ellipsis :: "IP \<Rightarrow> nat \<Rightarrow> nat \<Rightarrow> IP" where
  "expand_ellipsis ip i ellipsis =
     (let n = IPv6len - i;
          ip1 = foldl (\<lambda>a j. a[j + n := a ! j]) ip (rev [ellipsis..<i]);
          ip2 = foldl (\<lambda>a j. a[j := 0]) ip1 (rev [ellipsis..<ellipsis + n])
      in ip2)"

definition parseIPv6_after :: "(IP \<times> nat \<times> string \<times> int) option \<Rightarrow> IP option" where
  "parseIPv6_after r =
     (case r of
        None \<Rightarrow> None
      | Some (ip, i, s, ellipsis) \<Rightarrow>
          if length s \<noteq> 0 then None
          else if i < IPv6len then
            (if ellipsis < 0 then None else Some (expand_ellipsis ip i (nat ellipsis)))
          else if ellipsis \<ge> 0 then None
          else Some ip)"

definition parseIPv6 :: "string \<Rightarrow> IP option" where
  "parseIPv6 s =
     (let ip = replicate IPv6len 0
      in if length s \<ge> 2 \<and> s ! 0 = CHR '':'' \<and> s ! 1 = CHR '':'' then
           (if length (drop 2 s) = 0 then Some ip
            else parseIPv6_after (parseIPv6_loop ip 0 (drop 2 s) 0))
         else parseIPv6_after (parseIPv6_loop ip 0 s (- 1)))"

text \<open>\<open>allFF(b)\<close>: every byte is \<open>0xff\<close>.\<close>

definition allFF :: "byte list \<Rightarrow> bool" where
  "allFF b = list_all (\<lambda>c. c = 0xff) b"

text \<open>
  \<open>CIDRMask(ones, bits)\<close>: a mask of \<open>bits\<close> bits whose first \<open>ones\<close> bits are set;
  \<open>nil\<close>, here the empty list, for any other length than that of an address. The loop
  carries the number \<open>n\<close> of ones still to write.
\<close>

fun CIDRMask_loop :: "nat \<Rightarrow> nat \<Rightarrow> IPMask" where
  "CIDRMask_loop 0 n = []"
| "CIDRMask_loop (Suc l) n =
     (if n \<ge> 8 then 0xff # CIDRMask_loop l (n - 8)
      else not (drop_bit n (0xff :: byte)) # CIDRMask_loop l 0)"

definition CIDRMask :: "int \<Rightarrow> nat \<Rightarrow> IPMask" where
  "CIDRMask ones bits =
     (if bits \<noteq> 8 * IPv4len \<and> bits \<noteq> 8 * IPv6len then []
      else if ones < 0 \<or> ones > int bits then []
      else CIDRMask_loop (bits div 8) (nat ones))"

text \<open>
  \<open>ip.Mask(mask)\<close>: the address with the mask applied, byte by byte, once a 16-byte
  form of an IPv4 address or mask has been cut to its last four bytes; \<open>nil\<close>, here the
  empty list, when the lengths differ.
\<close>

definition IP_Mask :: "IP \<Rightarrow> IPMask \<Rightarrow> IP" where
  "IP_Mask ip m =
     (let m1 = (if length m = IPv6len \<and> length ip = IPv4len \<and> allFF (take 12 m)
                then drop 12 m else m);
          ip1 = (if length m1 = IPv4len \<and> length ip = IPv6len \<and> take 12 ip = v4InV6Prefix
                 then drop 12 ip else ip)
      in if length ip1 \<noteq> length m1 then []
         else map (\<lambda>(a, b). and a b) (zip ip1 m1))"

text \<open>\<open>bytealg.IndexByteString(s, c)\<close>: the index of the first \<open>c\<close> in \<open>s\<close>, or \<open>-1\<close>.\<close>

definition IndexByteString :: "string \<Rightarrow> char \<Rightarrow> int" where
  "IndexByteString s c =
     (if c \<in> set s then int (length (takeWhile (\<lambda>x. x \<noteq> c) s)) else - 1)"

text \<open>
  \<open>ParseCIDR(s)\<close>: the text before the first slash is an IPv4 address or else an IPv6
  address, the text after it is a decimal prefix length of at most 32 or 128 bits. The
  result is the address and the network (the address masked, and the mask).
\<close>

definition ParseCIDR :: "string \<Rightarrow> (IP \<times> IPNet) option" where
  "ParseCIDR s =
     (let i = IndexByteString s CHR ''/''
      in if i < 0 then None
         else
           (let addr = take (nat i) s;
                mask = drop (nat i + 1) s;
                ip4 = parseIPv4 addr;
                iplen = (if ip4 = None then IPv6len else IPv4len);
                ip = (if ip4 = None then parseIPv6 addr else ip4)
            in case dtoi mask of
                 (n, j, ok) \<Rightarrow>
                   (case ip of
                      None \<Rightarrow> None
                    | Some a \<Rightarrow>
                        if \<not> ok \<or> j \<noteq> length mask \<or> n < 0 \<or> n > 8 * int iplen then None
                        else
                          (let m = CIDRMask n (8 * iplen)
                           in Some (a, \<lparr>IP = IP_Mask a m, Mask = m\<rparr>)))))"

subsection \<open>The client and its configuration\<close>

text \<open>
  Modelled from the spec: the declaration of \<open>osmConfig\<close> is in another file of the
  package. The fields are those that methods.go reads, with the types it uses them at:
  the three texts are compared with \<open>""\<close>, so they are strings whose absent state is the
  empty string; the port is compared with \<open>0\<close> and converted to \<open>uint32\<close>, and is the
  16-bit unsigned number of the spec's data model.
\<close>

record osmConfig =
  PermissiveTrafficPolicyMode :: bool
  Egress :: bool
  PrometheusScraping :: bool
  TracingEnable :: bool
  TracingAddress :: string
  TracingPort :: "16 word"
  TracingEndpoint :: string
  MeshCIDRRanges :: string
  UseHTTPSIngress :: bool
  EnvoyLogLevel :: string

text \<open>
  Modelled from the spec: the declaration of \<open>Client\<close> and its method \<open>getConfigMap\<close>
  are in another file of the package. The client holds the namespace of the controller,
  fixed at construction, the name of the ConfigMap, and the configuration currently
  installed, which \<open>getConfigMap\<close> returns whole.
\<close>

record Client =
  osmNamespace :: string
  osmConfigMapName :: string
  configMap :: osmConfig

definition getConfigMap :: "Client \<Rightarrow> osmConfig" where
  "getConfigMap c = configMap c"

text \<open>
  The defaults of package constants, which is not part of methods.go: they are a
  parameter of every accessor that falls back to one.
\<close>

record constants =
  DefaultTracingHost :: string
  DefaultTracingPort :: "32 word"
  DefaultTracingEndpoint :: string
  DefaultEnvoyLogLevel :: string

subsection \<open>The accessors\<close>

definition GetOSMNamespace :: "Client \<Rightarrow> string" where
  "GetOSMNamespace c = osmNamespace c"

definition IsPermissiveTrafficPolicyMode :: "Client \<Rightarrow> bool" where
  "IsPermissiveTrafficPolicyMode c = PermissiveTrafficPolicyMode (getConfigMap c)"

definition IsEgressEnabled :: "Client \<Rightarrow> bool" where
  "IsEgressEnabled c = Egress (getConfigMap c)"

definition IsPrometheusScrapingEnabled :: "Client \<Rightarrow> bool" where
  "IsPrometheusScrapingEnabled c = PrometheusScraping (getConfigMap c)"

definition IsTracingEnabled :: "Client \<Rightarrow> bool" where
  "IsTracingEnabled c = TracingEnable (getConfigMap c)"

text \<open>
  \<open>fmt.Sprintf("%s.%s.svc.cluster.local", a, b)\<close> on two strings is their
  concatenation with the literal parts of the format.
\<close>

definition GetTracingHost :: "constants \<Rightarrow> Client \<Rightarrow> string" where
  "GetTracingHost k c =
     (let tracingAddress = TracingAddress (getConfigMap c)
      in if tracingAddress \<noteq> '''' then tracingAddress
         else DefaultTracingHost k @ ''.'' @ GetOSMNamespace c @ ''.svc.cluster.local'')"

definition GetTracingPort :: "constants \<Rightarrow> Client \<Rightarrow> 32 word" where
  "GetTracingPort k c =
     (let tracingPort = TracingPort (getConfigMap c)
      in if tracingPort \<noteq> 0 then ucast tracingPort
         else DefaultTracingPort k)"

definition GetTracingEndpoint :: "constants \<Rightarrow> Client \<Rightarrow> string" where
  "GetTracingEndpoint k c =
     (let tracingEndpoint = TracingEndpoint (getConfigMap c)
      in if tracingEndpoint \<noteq> '''' then tracingEndpoint
         else DefaultTracingEndpoint k)"

definition UseHTTPSIngress_get :: "Client \<Rightarrow> bool" where
  "UseHTTPSIngress_get c = UseHTTPSIngress (getConfigMap c)"

definition GetEnvoyLogLevel :: "constants \<Rightarrow> Client \<Rightarrow> string" where
  "GetEnvoyLogLevel k c =
     (let logLevel = EnvoyLogLevel (getConfigMap c)
      in if logLevel \<noteq> '''' then logLevel
         else DefaultEnvoyLogLevel k)"

text \<open>
  \<open>GetMeshCIDRRanges\<close>. The Go map \<open>cidrSet\<close> is used as a set of strings: it is the
  list of its keys, each once, and writing a key that is there changes nothing. The loop
  over the tokens carries the map; the error it logs for a token that does not parse has
  no part in the result.
\<close>

definition cidrSet_put :: "string \<Rightarrow> string list \<Rightarrow> string list" where
  "cidrSet_put k m = (if k \<in> set m then m else m @ [k])"

fun cidrSet_loop :: "string list \<Rightarrow> string list \<Rightarrow> string list" where
  "cidrSet_loop [] cidrSet = cidrSet"
| "cidrSet_loop (cidr # rest) cidrSet =
     (let trimmedCIDR = Trim cidr '' ''
      in if length trimmedCIDR = 0 then cidrSet_loop rest cidrSet
         else
           (case ParseCIDR trimmedCIDR of
              None \<Rightarrow> cidrSet_loop rest cidrSet
            | Some r \<Rightarrow> cidrSet_loop rest (cidrSet_put trimmedCIDR cidrSet)))"

text \<open>
  Go ranges over a map in an order it does not fix, so \<open>cidrs\<close> holds the keys in some
  order before \<open>sort.Strings\<close>; the model takes them in the order they were written,
  and \<open>sort_any_order\<close> below shows that the order does not matter.
\<close>

definition GetMeshCIDRRanges :: "Client \<Rightarrow> string list" where
  "GetMeshCIDRRanges c =
     (let noSpaces = ReplaceAll (MeshCIDRRanges (getConfigMap c)) CHR '' '' CHR '','';
          commaSeparatedCIDRs = Split noSpaces CHR '','';
          cidrSet = cidrSet_loop commaSeparatedCIDRs [];
          cidrs = cidrSet
      in sort cidrs)"

text \<open>
  The tokens that reach \<open>net.ParseCIDR\<close>, in the order of the loop: the pieces between
  the commas, trimmed, the empty ones skipped.
\<close>

definition trimmedCIDRs :: "Client \<Rightarrow> string list" where
  "trimmedCIDRs c =
     filter (\<lambda>trimmedCIDR. length trimmedCIDR \<noteq> 0)
       (map (\<lambda>cidr. Trim cidr '' '')
          (Split (ReplaceAll (MeshCIDRRanges (getConfigMap c)) CHR '' '' CHR '','') CHR '',''))"

subsection \<open>The normalizer as the specification words it\<close>

text \<open>
  The specification's \<open>normalize\<close>: comma and space both delimit items, empty tokens are
  discarded, each token is validated, exact duplicates are removed and the rest is
  sorted. \<open>spec_tokens_from cur s\<close> reads \<open>s\<close> with the token \<open>cur\<close> begun.
\<close>

definition isDelimiter :: "char \<Rightarrow> bool" where
  "isDelimiter c = (c = CHR '','' \<or> c = CHR '' '')"

fun spec_tokens_from :: "string \<Rightarrow> string \<Rightarrow> string list" where
  "spec_tokens_from cur [] = (if cur = [] then [] else [cur])"
| "spec_tokens_from cur (c # cs) =
     (if isDelimiter c then (if cur = [] then [] else [cur]) @ spec_tokens_from [] cs
      else spec_tokens_from (cur @ [c]) cs)"

definition spec_tokens :: "string \<Rightarrow> string list" where
  "spec_tokens raw = spec_tokens_from [] raw"

definition spec_normalize :: "string \<Rightarrow> string list" where
  "spec_normalize raw =
     sort (remdups (filter (\<lambda>t. ParseCIDR t \<noteq> None) (spec_tokens raw)))"

subsection \<open>Concrete clients\<close>

text \<open>
  A client in the namespace \<open>osm-system\<close> whose configuration holds the given raw list
  of ranges and the zero value in every other field, and one choice of the defaults
  that the accessors fall back to.
\<close>

definition zeroConfig :: osmConfig where
  "zeroConfig =
     \<lparr>PermissiveTrafficPolicyMode = False, Egress = False, PrometheusScraping = False,
      TracingEnable = False, TracingAddress = '''', TracingPort = 0, TracingEndpoint = '''',
      MeshCIDRRanges = '''', UseHTTPSIngress = False, EnvoyLogLevel = ''''\<rparr>"

definition clientWith :: "osmConfig \<Rightarrow> Client" where
  "clientWith cfg =
     \<lparr>osmNamespace = ''osm-system'', osmConfigMapName = ''osm-config'', configMap = cfg\<rparr>"

definition clientWithRanges :: "string \<Rightarrow> Client" where
  "clientWithRanges raw = clientWith (zeroConfig\<lparr>MeshCIDRRanges := raw\<rparr>)"

definition osmConstants :: constants where
  "osmConstants =
     \<lparr>DefaultTracingHost = ''jaeger'', DefaultTracingPort = 9411,
      DefaultTracingEndpoint = ''/api/v2/spans'', DefaultEnvoyLogLevel = ''error''\<rparr>"

section \<open>Properties\<close>

subsection \<open>Splitting, trimming and joining\<close>

lemma Split_not_Nil: "Split s sep \<noteq> []"
  by (induction s) (auto split: list.splits)

lemma Split_no_sep: "t \<in> set (Split s sep) \<Longrightarrow> sep \<notin> set t"
proof (induction s arbitrary: t)
  case Nil
  then show ?case by simp
next
  case (Cons c cs)
  show ?case
  proof (cases "c = sep")
    case True
    with Cons show ?thesis by auto
  next
    case False
    obtain u us where u: "Split cs sep = u # us"
      using Split_not_Nil [of cs sep] by (cases "Split cs sep") auto
    with False Cons.prems have "t = c # u \<or> t \<in> set us" by simp
    then show ?thesis
    proof
      assume "t = c # u"
      moreover have "sep \<notin> set u" using Cons.IH [of u] u by simp
      ultimately show ?thesis using False by auto
    next
      assume "t \<in> set us"
      then show ?thesis using Cons.IH [of t] u by simp
    qed
  qed
qed

lemma Split_chars: "t \<in> set (Split s sep) \<Longrightarrow> set t \<subseteq> set s"
proof (induction s arbitrary: t)
  case Nil
  then show ?case by simp
next
  case (Cons c cs)
  obtain u us where u: "Split cs sep = u # us"
    using Split_not_Nil [of cs sep] by (cases "Split cs sep") auto
  from Cons.prems u have "t = [] \<or> t = c # u \<or> t \<in> set (Split cs sep)"
    by (auto split: if_splits)
  moreover have "set u \<subseteq> set cs" using Cons.IH [of u] u by simp
  ultimately show ?case using Cons.IH [of t] by auto
qed

lemma Split_no_sep_id: "sep \<notin> set s \<Longrightarrow> Split s sep = [s]"
  by (induction s) auto

lemma Split_append_sep:
  "sep \<notin> set x \<Longrightarrow> Split (x @ sep # s) sep = x # Split s sep"
  by (induction x) auto

lemma Split_Join:
  "xs \<noteq> [] \<Longrightarrow> \<forall>x\<in>set xs. sep \<notin> set x \<Longrightarrow> Split (Join xs [sep]) sep = xs"
proof (induction xs "[sep]" rule: Join.induct)
  case 1
  then show ?case by simp
next
  case (2 x)
  then show ?case by (simp add: Split_no_sep_id)
next
  case (3 x y ys)
  then show ?case by (simp add: Split_append_sep)
qed

lemma Trim_no_cut: "set s \<inter> set cutset = {} \<Longrightarrow> Trim s cutset = s"
proof -
  assume a: "set s \<inter> set cutset = {}"
  have 1: "dropWhile (\<lambda>c. c \<in> set cutset) s = s"
    using a by (cases s) auto
  have 2: "dropWhile (\<lambda>c. c \<in> set cutset) (rev s) = rev s"
    using a by (cases "rev s") (auto simp: disjoint_iff dest: arg_cong [where f = set])
  show ?thesis by (simp add: Trim_def 1 2)
qed

lemma ReplaceAll_no_old: "old \<noteq> new \<Longrightarrow> old \<notin> set (ReplaceAll s old new)"
  by (auto simp: ReplaceAll_def)

lemma ReplaceAll_id: "old \<notin> set s \<Longrightarrow> ReplaceAll s old new = s"
  by (induction s) (auto simp: ReplaceAll_def)

subsection \<open>The loop over the tokens\<close>

lemma cidrSet_put_set: "set (cidrSet_put k m) = insert k (set m)"
  by (auto simp: cidrSet_put_def)

lemma cidrSet_put_distinct: "distinct m \<Longrightarrow> distinct (cidrSet_put k m)"
  by (auto simp: cidrSet_put_def)

lemma cidrSet_loop_set:
  "set (cidrSet_loop ts m) =
     set m \<union> {t \<in> set (map (\<lambda>cidr. Trim cidr '' '') ts). length t \<noteq> 0 \<and> ParseCIDR t \<noteq> None}"
proof (induction ts arbitrary: m)
  case Nil
  then show ?case by simp
next
  case (Cons cidr rest)
  show ?case
  proof (cases "length (Trim cidr '' '') = 0")
    case True
    then show ?thesis using Cons.IH [of m] by (auto simp: Let_def)
  next
    case False
    show ?thesis
    proof (cases "ParseCIDR (Trim cidr '' '')")
      case None
      with False show ?thesis using Cons.IH [of m] by (auto simp: Let_def)
    next
      case (Some r)
      with False show ?thesis
        using Cons.IH [of "cidrSet_put (Trim cidr '' '') m"]
        by (auto simp: Let_def cidrSet_put_set)
    qed
  qed
qed

lemma cidrSet_loop_distinct: "distinct m \<Longrightarrow> distinct (cidrSet_loop ts m)"
  by (induction ts arbitrary: m) (auto simp: Let_def cidrSet_put_distinct split: option.splits)

lemma GetMeshCIDRRanges_set:
  "set (GetMeshCIDRRanges c) = {t \<in> set (trimmedCIDRs c). ParseCIDR t \<noteq> None}"
  by (auto simp: GetMeshCIDRRanges_def trimmedCIDRs_def cidrSet_loop_set)

lemma GetMeshCIDRRanges_distinct: "distinct (GetMeshCIDRRanges c)"
  by (simp add: GetMeshCIDRRanges_def cidrSet_loop_distinct)

lemma GetMeshCIDRRanges_sorted: "sorted (GetMeshCIDRRanges c)"
  by (simp add: GetMeshCIDRRanges_def)

lemma sorted_distinct_eqI:
  "sorted xs \<Longrightarrow> distinct xs \<Longrightarrow> sorted ys \<Longrightarrow> distinct ys \<Longrightarrow> set xs = set ys \<Longrightarrow> xs = ys"
  for xs ys :: "string list"
  by (rule sorted_distinct_set_unique)

lemma sort_any_order:
  "mset ks = mset (cidrSet_loop ts []) \<Longrightarrow> sort ks = sort (cidrSet_loop ts [])"
  by (rule properties_for_sort) simp_all

lemma GetMeshCIDRRanges_eq:
  "GetMeshCIDRRanges c = sort (remdups (filter (\<lambda>t. ParseCIDR t \<noteq> None) (trimmedCIDRs c)))"
  by (rule sorted_distinct_eqI)
    (auto simp: GetMeshCIDRRanges_sorted GetMeshCIDRRanges_distinct GetMeshCIDRRanges_set)

lemma token_no_space:
  assumes "t \<in> set (Split (ReplaceAll s CHR '' '' CHR '','') CHR '','')"
  shows "CHR '' '' \<notin> set t" and "CHR '','' \<notin> set t"
proof -
  have "set t \<subseteq> set (ReplaceAll s CHR '' '' CHR '','')"
    using assms by (rule Split_chars)
  moreover have "CHR '' '' \<notin> set (ReplaceAll s CHR '' '' CHR '','')"
    by (rule ReplaceAll_no_old) simp
  ultimately show "CHR '' '' \<notin> set t" by blast
  show "CHR '','' \<notin> set t" using assms by (rule Split_no_sep)
qed

lemma token_Trim:
  "t \<in> set (Split (ReplaceAll s CHR '' '' CHR '','') CHR '','') \<Longrightarrow> Trim t '' '' = t"
  by (rule Trim_no_cut) (use token_no_space(1) in auto)

lemma trimmedCIDRs_Split:
  "trimmedCIDRs c =
     filter (\<lambda>t. t \<noteq> [])
       (Split (ReplaceAll (MeshCIDRRanges (getConfigMap c)) CHR '' '' CHR '','') CHR '','')"
proof -
  have "map (\<lambda>cidr. Trim cidr '' '')
          (Split (ReplaceAll (MeshCIDRRanges (getConfigMap c)) CHR '' '' CHR '','') CHR '','')
        = Split (ReplaceAll (MeshCIDRRanges (getConfigMap c)) CHR '' '' CHR '','') CHR '',''"
    by (rule map_idI) (rule token_Trim)
  then show ?thesis by (simp add: trimmedCIDRs_def)
qed

lemma spec_tokens_from_Split:
  "spec_tokens_from cur s =
     filter (\<lambda>t. t \<noteq> [])
       (case Split (ReplaceAll s CHR '' '' CHR '','') CHR '','' of
          [] \<Rightarrow> [cur] | t # ts \<Rightarrow> (cur @ t) # ts)"
proof (induction s arbitrary: cur)
  case Nil
  then show ?case by (simp add: ReplaceAll_def)
next
  case (Cons c cs)
  obtain u us where u: "Split (ReplaceAll cs CHR '' '' CHR '','') CHR '','' = u # us"
    using Split_not_Nil by (cases "Split (ReplaceAll cs CHR '' '' CHR '','') CHR '',''") auto
  have r: "ReplaceAll (c # cs) CHR '' '' CHR '','' =
        (if c = CHR '' '' then CHR '','' else c) # ReplaceAll cs CHR '' '' CHR '',''"
    by (simp add: ReplaceAll_def)
  show ?case
  proof (cases "isDelimiter c")
    case True
    then show ?thesis using Cons.IH [of "[]"] u r
      by (auto simp: isDelimiter_def)
  next
    case False
    then show ?thesis using Cons.IH [of "cur @ [c]"] u r
      by (auto simp: isDelimiter_def)
  qed
qed

lemma trimmedCIDRs_spec: "trimmedCIDRs c = spec_tokens (MeshCIDRRanges (getConfigMap c))"
proof -
  obtain u us where
    u: "Split (ReplaceAll (MeshCIDRRanges (getConfigMap c)) CHR '' '' CHR '','') CHR '','' = u # us"
    using Split_not_Nil
    by (cases "Split (ReplaceAll (MeshCIDRRanges (getConfigMap c)) CHR '' '' CHR '','') CHR '',''") auto
  show ?thesis
    unfolding spec_tokens_def trimmedCIDRs_Split spec_tokens_from_Split u by simp
qed

subsection \<open>What the parser reads\<close>

text \<open>
  A string that \<open>ParseCIDR\<close> accepts is read to its end by the number readers and
  the checks for dots, colons and the slash, so it holds neither a comma nor a space.
\<close>

lemma digit_not_delim: "CHR ''0'' \<le> c \<Longrightarrow> c \<le> CHR ''9'' \<Longrightarrow> \<not> isDelimiter c"
  by (auto simp: isDelimiter_def)

lemma hex_not_delim:
  "CHR ''a'' \<le> c \<Longrightarrow> c \<le> CHR ''f'' \<Longrightarrow> \<not> isDelimiter c"
  "CHR ''A'' \<le> c \<Longrightarrow> c \<le> CHR ''F'' \<Longrightarrow> \<not> isDelimiter c"
  by (auto simp: isDelimiter_def)

lemma dtoi_loop_read:
  "dtoi_loop s n i = (m, j, True) \<Longrightarrow>
     i \<le> j \<and> j - i \<le> length s \<and> (\<forall>c\<in>set (take (j - i) s). \<not> isDelimiter c)"
proof (induction s arbitrary: n i)
  case Nil
  then show ?case by (auto split: if_splits)
next
  case (Cons c cs)
  show ?case
  proof (cases "CHR ''0'' \<le> c \<and> c \<le> CHR ''9''")
    case False
    with Cons.prems show ?thesis by (auto split: if_splits)
  next
    case True
    let ?n = "n * 10 + (of_char c - of_char CHR ''0'')"
    from True Cons.prems have ge: "\<not> ?n \<ge> big" and rec: "dtoi_loop cs ?n (i + 1) = (m, j, True)"
      by (auto simp: Let_def split: if_splits)
    from Cons.IH [OF rec] have ih: "i + 1 \<le> j" "j - (i + 1) \<le> length cs"
      "\<forall>c\<in>set (take (j - (i + 1)) cs). \<not> isDelimiter c" by auto
    have "j - i = Suc (j - (i + 1))" using ih(1) by simp
    then show ?thesis using ih True by (auto simp: digit_not_delim)
  qed
qed

lemma dtoi_read:
  "dtoi s = (n, c, True) \<Longrightarrow> c \<le> length s \<and> (\<forall>x\<in>set (take c s). \<not> isDelimiter x)"
  using dtoi_loop_read [of s 0 0 n c] by (simp add: dtoi_def)

lemma xtoi_loop_read:
  "xtoi_loop s n i = (m, j, True) \<Longrightarrow>
     i \<le> j \<and> j - i \<le> length s \<and> (\<forall>c\<in>set (take (j - i) s). \<not> isDelimiter c)"
proof (induction s arbitrary: n i)
  case Nil
  then show ?case by (auto split: if_splits)
next
  case (Cons c cs)
  consider (d) "CHR ''0'' \<le> c \<and> c \<le> CHR ''9''"
    | (l) "\<not> (CHR ''0'' \<le> c \<and> c \<le> CHR ''9'')" "CHR ''a'' \<le> c \<and> c \<le> CHR ''f''"
    | (u) "\<not> (CHR ''0'' \<le> c \<and> c \<le> CHR ''9'')" "\<not> (CHR ''a'' \<le> c \<and> c \<le> CHR ''f'')"
          "CHR ''A'' \<le> c \<and> c \<le> CHR ''F''"
    | (o) "\<not> (CHR ''0'' \<le> c \<and> c \<le> CHR ''9'')" "\<not> (CHR ''a'' \<le> c \<and> c \<le> CHR ''f'')"
          "\<not> (CHR ''A'' \<le> c \<and> c \<le> CHR ''F'')"
    by blast
  then have "(\<exists>n'. xtoi_loop cs n' (i + 1) = (m, j, True) \<and> \<not> isDelimiter c)
      \<or> (j = i)"
  proof cases
    case d
    with Cons.prems show ?thesis by (auto simp: Let_def digit_not_delim split: if_splits)
  next
    case l
    with Cons.prems show ?thesis by (auto simp: Let_def hex_not_delim split: if_splits)
  next
    case u
    with Cons.prems show ?thesis by (auto simp: Let_def hex_not_delim split: if_splits)
  next
    case o
    with Cons.prems show ?thesis by (auto split: if_splits)
  qed
  then show ?case
  proof
    assume "\<exists>n'. xtoi_loop cs n' (i + 1) = (m, j, True) \<and> \<not> isDelimiter c"
    then obtain n' where rec: "xtoi_loop cs n' (i + 1) = (m, j, True)" and c: "\<not> isDelimiter c"
      by blast
    from Cons.IH [OF rec] have ih: "i + 1 \<le> j" "j - (i + 1) \<le> length cs"
      "\<forall>c\<in>set (take (j - (i + 1)) cs). \<not> isDelimiter c" by auto
    have "j - i = Suc (j - (i + 1))" using ih(1) by simp
    then show ?thesis using ih c by auto
  next
    assume "j = i"
    then show ?thesis by simp
  qed
qed

lemma xtoi_read:
  "xtoi s = (n, c, True) \<Longrightarrow> c \<le> length s \<and> (\<forall>x\<in>set (take c s). \<not> isDelimiter x)"
  using xtoi_loop_read [of s 0 0 n c] by (simp add: xtoi_def)

lemma dot_not_delim: "\<not> isDelimiter CHR ''.''" and colon_not_delim: "\<not> isDelimiter CHR '':''"
  and slash_not_delim: "\<not> isDelimiter CHR ''/''"
  by (simp_all add: isDelimiter_def)

lemma parseIPv4_loop_read:
  "parseIPv4_loop i s p = Some (s', p') \<Longrightarrow>
     \<exists>pre. s = pre @ s' \<and> (\<forall>c\<in>set pre. \<not> isDelimiter c)"
proof (induction i s p rule: parseIPv4_loop.induct)
  case (1 i s p)
  show ?case
  proof (cases "i < IPv4len")
    case False
    with "1.prems" show ?thesis by (subst (asm) parseIPv4_loop.simps) simp
  next
    case True
    from True "1.prems" have ne: "length s \<noteq> 0"
      by (subst (asm) parseIPv4_loop.simps) (auto split: if_splits)
    define r where "r = (if i > 0 then (if hd s \<noteq> CHR ''.'' then None else Some (tl s)) else Some s)"
    from True ne "1.prems" obtain s1 where s1: "r = Some s1"
      unfolding r_def by (subst (asm) parseIPv4_loop.simps) (auto split: if_splits option.splits)
    obtain n c ok where d: "dtoi s1 = (n, c, ok)" by (cases "dtoi s1") auto
    from True ne "1.prems" s1 d have ok: "ok" "\<not> n > 0xFF"
      and rec: "parseIPv4_loop (i + 1) (drop c s1) (p[i := of_int n]) = Some (s', p')"
      unfolding r_def by (subst (asm) parseIPv4_loop.simps, auto split: if_splits option.splits)+
    have "\<exists>pre. drop c s1 = pre @ s' \<and> (\<forall>c\<in>set pre. \<not> isDelimiter c)"
      using "1.IH" [OF True ne s1 [unfolded r_def] d [symmetric] refl _ rec] ok by simp
    then obtain pre where pre: "drop c s1 = pre @ s'" "\<forall>c\<in>set pre. \<not> isDelimiter c" by blast
    from d ok have dr: "c \<le> length s1" "\<forall>x\<in>set (take c s1). \<not> isDelimiter x"
      using dtoi_read [of s1 n c] by auto
    have s1eq: "s1 = take c s1 @ pre @ s'" using pre(1) by (metis append_take_drop_id)
    have "\<exists>hdr. s = hdr @ s1 \<and> (\<forall>c\<in>set hdr. \<not> isDelimiter c)"
    proof (cases "i > 0")
      case True
      with s1 have "hd s = CHR ''.''" "s1 = tl s" by (auto simp: r_def split: if_splits)
      with ne have "s = [CHR ''.''] @ s1" by (cases s) auto
      then show ?thesis using dot_not_delim by (metis empty_iff empty_set set_ConsD)
    next
      case False
      with s1 have "s = [] @ s1" by (simp add: r_def)
      then show ?thesis by (metis empty_iff empty_set)
    qed
    then obtain hdr where hdr: "s = hdr @ s1" "\<forall>c\<in>set hdr. \<not> isDelimiter c" by blast
    have "s = (hdr @ take c s1 @ pre) @ s'" using hdr(1) s1eq by simp
    moreover have "\<forall>x\<in>set (hdr @ take c s1 @ pre). \<not> isDelimiter x"
      using hdr(2) dr(2) pre(2) by auto
    ultimately show ?thesis by blast
  qed
qed

lemma parseIPv4_read:
  "parseIPv4 s = Some ip \<Longrightarrow> \<forall>c\<in>set s. \<not> isDelimiter c"
proof -
  assume a: "parseIPv4 s = Some ip"
  then obtain s' p' where l: "parseIPv4_loop 0 s (replicate IPv4len 0) = Some (s', p')"
    and e: "length s' = 0"
    by (auto simp: parseIPv4_def split: option.splits if_splits)
  from parseIPv4_loop_read [OF l] e show ?thesis by auto
qed

lemma drop_hd_split: "drop c s \<noteq> [] \<Longrightarrow> hd (drop c s) = x \<Longrightarrow> drop c s = x # drop (c + 1) s"
  by (cases "drop c s") (auto simp: drop_Suc tl_drop [symmetric])

lemma parseIPv6_loop_read:
  "parseIPv6_loop ip i s e = Some (ip', i', s', e') \<Longrightarrow>
     \<exists>pre. s = pre @ s' \<and> (\<forall>c\<in>set pre. \<not> isDelimiter c)"
proof (induction "IPv6len - i" arbitrary: ip i s e rule: less_induct)
  case less
  show ?case
  proof (cases "i < IPv6len")
    case False
    with less.prems show ?thesis by (subst (asm) parseIPv6_loop.simps) simp
  next
    case True
    obtain n c ok where x: "xtoi s = (n, c, ok)" by (cases "xtoi s") auto
    from True less.prems x have ok: "ok"
      by (subst (asm) parseIPv6_loop.simps) (auto split: if_splits)
    from x ok have xr: "c \<le> length s" "\<forall>x\<in>set (take c s). \<not> isDelimiter x"
      using xtoi_read [of s n c] by auto
    have rec: "\<And>ip2 e2 t. parseIPv6_loop ip2 (i + 2) t e2 = Some (ip', i', s', e') \<Longrightarrow>
        \<exists>pre. t = pre @ s' \<and> (\<forall>c\<in>set pre. \<not> isDelimiter c)"
      using less.hyps [of "i + 2"] True by (simp add: IPv6len_def)
    from True less.prems x ok consider
        (v4) "parseIPv4 s \<noteq> None" "s' = []"
      | (fin) "drop c s = []" "s' = []"
      | (endell) "drop c s \<noteq> []" "hd (drop c s) = CHR '':''" "length (drop c s) \<noteq> 1"
          "hd (drop (c + 1) s) = CHR '':''" "drop (c + 2) s = []" "s' = []"
      | (ell) ip2 e2 where "drop c s \<noteq> []" "hd (drop c s) = CHR '':''" "length (drop c s) \<noteq> 1"
          "hd (drop (c + 1) s) = CHR '':''"
          "parseIPv6_loop ip2 (i + 2) (drop (c + 2) s) e2 = Some (ip', i', s', e')"
      | (col) ip2 e2 where "drop c s \<noteq> []" "hd (drop c s) = CHR '':''"
          "parseIPv6_loop ip2 (i + 2) (drop (c + 1) s) e2 = Some (ip', i', s', e')"
      by (subst (asm) parseIPv6_loop.simps) (auto split: if_splits option.splits)
    then show ?thesis
    proof cases
      case v4
      then obtain ip4 where "parseIPv4 s = Some ip4" by auto
      from parseIPv4_read [OF this] v4(2) show ?thesis by auto
    next
      case fin
      then have "s = take c s @ s'" by (metis append_take_drop_id)
      with xr(2) show ?thesis by blast
    next
      case endell
      have 1: "drop c s = CHR '':'' # drop (c + 1) s"
        using endell(1,2) by (rule drop_hd_split)
      have "drop (c + 1) s \<noteq> []" using endell(3) 1 by auto
      then have 2: "drop (c + 1) s = CHR '':'' # drop (c + 1 + 1) s"
        using endell(4) by (rule drop_hd_split)
      have "s = take c s @ drop c s" by simp
      then have "s = (take c s @ [CHR '':'', CHR '':'']) @ s'"
        using 1 2 endell(5,6) by simp
      moreover have "\<forall>x\<in>set (take c s @ [CHR '':'', CHR '':'']). \<not> isDelimiter x"
        using xr(2) colon_not_delim by auto
      ultimately show ?thesis by blast
    next
      case ell
      have 1: "drop c s = CHR '':'' # drop (c + 1) s"
        using ell(1,2) by (rule drop_hd_split)
      have "drop (c + 1) s \<noteq> []" using ell(3) 1 by auto
      then have 2: "drop (c + 1) s = CHR '':'' # drop (c + 1 + 1) s"
        using ell(4) by (rule drop_hd_split)
      from rec [OF ell(5)] obtain pre where
        pre: "drop (c + 2) s = pre @ s'" "\<forall>c\<in>set pre. \<not> isDelimiter c" by blast
      have "s = take c s @ drop c s" by simp
      then have "s = (take c s @ [CHR '':'', CHR '':''] @ pre) @ s'"
        using 1 2 pre(1) by simp
      moreover have "\<forall>x\<in>set (take c s @ [CHR '':'', CHR '':''] @ pre). \<not> isDelimiter x"
        using xr(2) pre(2) colon_not_delim by auto
      ultimately show ?thesis by blast
    next
      case col
      have 1: "drop c s = CHR '':'' # drop (c + 1) s"
        using col(1,2) by (rule drop_hd_split)
      from rec [OF col(3)] obtain pre where
        pre: "drop (c + 1) s = pre @ s'" "\<forall>c\<in>set pre. \<not> isDelimiter c" by blast
      have "s = take c s @ drop c s" by simp
      then have "s = (take c s @ [CHR '':''] @ pre) @ s'"
        using 1 pre(1) by simp
      moreover have "\<forall>x\<in>set (take c s @ [CHR '':''] @ pre). \<not> isDelimiter x"
        using xr(2) pre(2) colon_not_delim by auto
      ultimately show ?thesis by blast
    qed
  qed
qed

lemma parseIPv6_after_read:
  "parseIPv6_after (parseIPv6_loop ip i s e) = Some a \<Longrightarrow> \<forall>c\<in>set s. \<not> isDelimiter c"
proof -
  assume a: "parseIPv6_after (parseIPv6_loop ip i s e) = Some a"
  then obtain ip' i' s' e' where l: "parseIPv6_loop ip i s e = Some (ip', i', s', e')"
    and e: "length s' = 0"
    by (auto simp: parseIPv6_after_def split: option.splits if_splits)
  from parseIPv6_loop_read [OF l] e show ?thesis by auto
qed

lemma parseIPv6_read:
  "parseIPv6 s = Some ip \<Longrightarrow> \<forall>c\<in>set s. \<not> isDelimiter c"
proof -
  assume a: "parseIPv6 s = Some ip"
  show ?thesis
  proof (cases "length s \<ge> 2 \<and> s ! 0 = CHR '':'' \<and> s ! 1 = CHR '':''")
    case False
    with a have "parseIPv6_after (parseIPv6_loop (replicate IPv6len 0) 0 s (- 1)) = Some ip"
      by (auto simp: parseIPv6_def Let_def)
    then show ?thesis by (rule parseIPv6_after_read)
  next
    case True
    then obtain t where t: "s = CHR '':'' # CHR '':'' # t"
      by (cases s; cases "tl s") auto
    show ?thesis
    proof (cases "t = []")
      case True
      with t show ?thesis using colon_not_delim by auto
    next
      case False
      with a t have "parseIPv6_after (parseIPv6_loop (replicate IPv6len 0) 0 t 0) = Some ip"
        by (auto simp: parseIPv6_def Let_def)
      then have "\<forall>c\<in>set t. \<not> isDelimiter c" by (rule parseIPv6_after_read)
      with t show ?thesis using colon_not_delim by auto
    qed
  qed
qed

lemma IndexByteString_split:
  "IndexByteString s c \<ge> 0 \<Longrightarrow>
     s = take (nat (IndexByteString s c)) s @ c # drop (nat (IndexByteString s c) + 1) s
     \<and> c \<notin> set (take (nat (IndexByteString s c)) s)"
proof -
  assume "IndexByteString s c \<ge> 0"
  then have in_s: "c \<in> set s" and i: "nat (IndexByteString s c) = length (takeWhile (\<lambda>x. x \<noteq> c) s)"
    by (auto simp: IndexByteString_def split: if_splits)
  have tk: "take (length (takeWhile (\<lambda>x. x \<noteq> c) s)) s = takeWhile (\<lambda>x. x \<noteq> c) s"
    by (simp add: takeWhile_eq_take [symmetric])
  have dw: "dropWhile (\<lambda>x. x \<noteq> c) s = drop (length (takeWhile (\<lambda>x. x \<noteq> c) s)) s"
    by (rule dropWhile_eq_drop)
  have "dropWhile (\<lambda>x. x \<noteq> c) s \<noteq> []" using in_s by (simp add: dropWhile_eq_Nil_conv) 
  moreover have "hd (dropWhile (\<lambda>x. x \<noteq> c) s) = c"
    using hd_dropWhile [of "\<lambda>x. x \<noteq> c" s] calculation by auto
  ultimately have "drop (length (takeWhile (\<lambda>x. x \<noteq> c) s)) s
      = c # drop (length (takeWhile (\<lambda>x. x \<noteq> c) s) + 1) s"
    unfolding dw by (rule drop_hd_split)
  moreover have "s = take (length (takeWhile (\<lambda>x. x \<noteq> c) s)) s @ drop (length (takeWhile (\<lambda>x. x \<noteq> c) s)) s"
    by simp
  moreover have "c \<notin> set (takeWhile (\<lambda>x. x \<noteq> c) s)"
    by (auto dest: set_takeWhileD)
  ultimately show ?thesis unfolding i tk by metis
qed

lemma ParseCIDR_SomeD:
  assumes "ParseCIDR s = Some r"
  shows "\<exists>addr mask n.
           s = addr @ CHR ''/'' # mask \<and> CHR ''/'' \<notin> set addr \<and>
           dtoi mask = (n, length mask, True) \<and> 0 \<le> n \<and>
           (case parseIPv4 addr of
              Some ip \<Rightarrow> n \<le> 32
            | None \<Rightarrow> parseIPv6 addr \<noteq> None \<and> n \<le> 128)"
proof -
  let ?i = "IndexByteString s CHR ''/''"
  let ?addr = "take (nat ?i) s"
  let ?mask = "drop (nat ?i + 1) s"
  from assms have i: "?i \<ge> 0"
    by (auto simp: ParseCIDR_def Let_def split: if_splits)
  obtain n j ok where d: "dtoi ?mask = (n, j, ok)" by (cases "dtoi ?mask") auto
  from IndexByteString_split [OF i]
  have s: "s = ?addr @ CHR ''/'' # ?mask" and ns: "CHR ''/'' \<notin> set ?addr" by auto
  from assms i d have m: "ok" "j = length ?mask" "0 \<le> n"
    by (auto simp: ParseCIDR_def Let_def split: if_splits option.splits)
  from assms i d have a: "case parseIPv4 ?addr of
              Some ip \<Rightarrow> n \<le> 32
            | None \<Rightarrow> parseIPv6 ?addr \<noteq> None \<and> n \<le> 128"
    by (auto simp: ParseCIDR_def Let_def IPv4len_def IPv6len_def split: if_splits option.splits)
  from d m have "dtoi ?mask = (n, length ?mask, True)" by simp
  with s ns m(3) a show ?thesis by blast
qed

lemma ParseCIDR_no_delimiter:
  assumes "ParseCIDR s = Some r"
  shows "\<forall>c\<in>set s. \<not> isDelimiter c"
proof -
  from ParseCIDR_SomeD [OF assms] obtain addr mask n where
    s: "s = addr @ CHR ''/'' # mask" and d: "dtoi mask = (n, length mask, True)"
    and a: "case parseIPv4 addr of Some ip \<Rightarrow> n \<le> 32
            | None \<Rightarrow> parseIPv6 addr \<noteq> None \<and> n \<le> 128"
    by blast
  have "\<forall>c\<in>set mask. \<not> isDelimiter c" using dtoi_read [OF d] by simp
  moreover have "\<forall>c\<in>set addr. \<not> isDelimiter c"
  proof (cases "parseIPv4 addr")
    case (Some ip)
    then show ?thesis by (rule parseIPv4_read)
  next
    case None
    with a obtain ip where "parseIPv6 addr = Some ip" by auto
    then show ?thesis by (rule parseIPv6_read)
  qed
  ultimately show ?thesis using s slash_not_delim by auto
qed

lemma ParseCIDR_not_Nil: "ParseCIDR s = Some r \<Longrightarrow> s \<noteq> []"
  using ParseCIDR_SomeD [of s r] by auto

subsection \<open>The tokens of the specification\<close>

lemma spec_tokens_from_delim:
  "isDelimiter d \<Longrightarrow>
     spec_tokens_from cur (pre @ d # s) = spec_tokens_from cur pre @ spec_tokens_from [] s"
  by (induction pre arbitrary: cur) auto

lemma spec_tokens_from_token:
  "\<forall>c\<in>set t. \<not> isDelimiter c \<Longrightarrow> spec_tokens_from cur (t @ s) = spec_tokens_from (cur @ t) s"
  by (induction t arbitrary: cur) auto

lemma spec_tokens_from_single:
  "t \<noteq> [] \<Longrightarrow> \<forall>c\<in>set t. \<not> isDelimiter c \<Longrightarrow> spec_tokens_from [] t = [t]"
  using spec_tokens_from_token [of t "[]" "[]"] by simp

lemma spec_tokens_from_spaces: "spec_tokens_from [] (replicate n CHR '' '' @ s) = spec_tokens_from [] s"
  by (induction n) (auto simp: isDelimiter_def)

lemma spec_tokens_from_spaces_end:
  "spec_tokens_from cur (replicate n CHR '' '') = (if cur = [] then [] else [cur])"
proof (cases n)
  case 0
  then show ?thesis by simp
next
  case (Suc m)
  have "spec_tokens_from [] (replicate m CHR '' '') = []"
    using spec_tokens_from_spaces [of m "[]"] by simp
  with Suc show ?thesis by (simp add: isDelimiter_def)
qed

lemma spec_tokens_from_substring:
  "x \<in> set (spec_tokens_from cur s) \<Longrightarrow> \<exists>pre post. cur @ s = pre @ x @ post"
proof (induction s arbitrary: cur)
  case Nil
  then have "x = cur" by (auto split: if_splits)
  then have "cur @ [] = [] @ x @ []" by simp
  then show ?case by blast
next
  case (Cons c cs)
  show ?case
  proof (cases "isDelimiter c")
    case False
    with Cons.prems have "x \<in> set (spec_tokens_from (cur @ [c]) cs)" by simp
    from Cons.IH [OF this] show ?thesis by simp
  next
    case True
    with Cons.prems have "x = cur \<or> x \<in> set (spec_tokens_from [] cs)"
      by (auto split: if_splits)
    then show ?thesis
    proof
      assume "x = cur"
      then have "cur @ c # cs = [] @ x @ (c # cs)" by simp
      then show ?thesis by blast
    next
      assume "x \<in> set (spec_tokens_from [] cs)"
      from Cons.IH [OF this] obtain pre post where "cs = pre @ x @ post" by auto
      then have "cur @ c # cs = (cur @ c # pre) @ x @ post" by simp
      then show ?thesis by blast
    qed
  qed
qed

lemma spec_tokens_Join:
  "\<forall>x\<in>set xs. x \<noteq> [] \<and> (\<forall>c\<in>set x. \<not> isDelimiter c) \<Longrightarrow>
     spec_tokens (Join xs '','') = xs"
proof (induction xs "'',''" rule: Join.induct)
  case 1
  then show ?case by (simp add: spec_tokens_def)
next
  case (2 x)
  then show ?case by (simp add: spec_tokens_def spec_tokens_from_single)
next
  case (3 x y ys)
  have d: "isDelimiter CHR '',''" by (simp add: isDelimiter_def)
  have "spec_tokens (Join (x # y # ys) '','') =
      spec_tokens_from [] x @ spec_tokens_from [] (Join (y # ys) '','')"
    using spec_tokens_from_delim [OF d, of "[]" x "Join (y # ys) '',''"]
    by (simp add: spec_tokens_def)
  also have "spec_tokens_from [] x = [x]" using "3.prems" by (simp add: spec_tokens_from_single)
  also have "spec_tokens_from [] (Join (y # ys) '','') = y # ys"
    using "3.hyps" "3.prems" by (simp add: spec_tokens_def)
  finally show ?case by simp
qed

lemma GetMeshCIDRRanges_spec_set:
  "set (GetMeshCIDRRanges c) =
     {t \<in> set (spec_tokens (MeshCIDRRanges (getConfigMap c))). ParseCIDR t \<noteq> None}"
  by (simp add: GetMeshCIDRRanges_set trimmedCIDRs_spec)

lemma GetMeshCIDRRanges_member:
  "x \<in> set (GetMeshCIDRRanges c) \<Longrightarrow>
     x \<noteq> [] \<and> (\<forall>ch\<in>set x. \<not> isDelimiter ch) \<and> ParseCIDR x \<noteq> None"
proof -
  assume "x \<in> set (GetMeshCIDRRanges c)"
  then obtain r where r: "ParseCIDR x = Some r" by (auto simp: GetMeshCIDRRanges_set)
  from ParseCIDR_no_delimiter [OF r] ParseCIDR_not_Nil [OF r] r show ?thesis by simp
qed

subsection \<open>The normalized mesh ranges\<close>

text \<open>
  C1. For every raw list of ranges in the configuration, the result of
  \<open>GetMeshCIDRRanges\<close> holds no string twice and is sorted: each element is less than
  or equal to the next in the byte-wise lexicographic order of strings.
\<close>

theorem GetMeshCIDRRanges_unique_sorted:
  "distinct (GetMeshCIDRRanges c) \<and> sorted (GetMeshCIDRRanges c)"
  by (simp add: GetMeshCIDRRanges_distinct GetMeshCIDRRanges_sorted)

text \<open>
  C2. Every element of the result of \<open>GetMeshCIDRRanges\<close> is accepted by
  \<open>ParseCIDR\<close>: it is an address, a slash and a prefix length, where the address has
  no slash and is an IPv4 address with a decimal prefix length of at most 32, or else an
  IPv6 address with one of at most 128.
\<close>

theorem GetMeshCIDRRanges_valid:
  "\<forall>x\<in>set (GetMeshCIDRRanges c).
     ParseCIDR x \<noteq> None \<and>
     (\<exists>addr mask n.
        x = addr @ CHR ''/'' # mask \<and> CHR ''/'' \<notin> set addr \<and>
        dtoi mask = (n, length mask, True) \<and> 0 \<le> n \<and>
        (case parseIPv4 addr of
           Some ip \<Rightarrow> n \<le> 32
         | None \<Rightarrow> parseIPv6 addr \<noteq> None \<and> n \<le> 128))"
proof
  fix x
  assume "x \<in> set (GetMeshCIDRRanges c)"
  then obtain r where r: "ParseCIDR x = Some r" by (auto simp: GetMeshCIDRRanges_set)
  from ParseCIDR_SomeD [OF r] r show "ParseCIDR x \<noteq> None \<and>
     (\<exists>addr mask n.
        x = addr @ CHR ''/'' # mask \<and> CHR ''/'' \<notin> set addr \<and>
        dtoi mask = (n, length mask, True) \<and> 0 \<le> n \<and>
        (case parseIPv4 addr of
           Some ip \<Rightarrow> n \<le> 32
         | None \<Rightarrow> parseIPv6 addr \<noteq> None \<and> n \<le> 128))" by simp
qed

theorem GetMeshCIDRRanges_valid_witness:
  "GetMeshCIDRRanges (clientWithRanges ''fd00::/8,10.0.0.0/8'') = [''10.0.0.0/8'', ''fd00::/8'']
   \<and> ParseCIDR ''10.0.0.0/8'' \<noteq> None \<and> ParseCIDR ''fd00::/8'' \<noteq> None"
proof -
  have r: "GetMeshCIDRRanges (clientWithRanges ''fd00::/8,10.0.0.0/8'') = [''10.0.0.0/8'', ''fd00::/8'']"
    by code_simp
  from GetMeshCIDRRanges_valid [of "clientWithRanges ''fd00::/8,10.0.0.0/8''"] r
  show ?thesis by simp
qed

text \<open>
  C3. \<open>GetMeshCIDRRanges\<close> has a result for every raw list, and no token fails it: the
  result holds exactly the tokens that \<open>ParseCIDR\<close> accepts, so a token that does not
  parse is left out and the others stay; when no token parses, and when the raw list is
  empty, the result is the empty sequence. The raw list
  \<open>10.0.0.0/8, not-a-cidr, 192.168.1.0/24\<close> gives \<open>10.0.0.0/8\<close> and \<open>192.168.1.0/24\<close>.
\<close>

theorem GetMeshCIDRRanges_skips_invalid:
  "set (GetMeshCIDRRanges c) = {t \<in> set (trimmedCIDRs c). ParseCIDR t \<noteq> None}
   \<and> ((\<forall>t\<in>set (trimmedCIDRs c). ParseCIDR t = None) \<longrightarrow> GetMeshCIDRRanges c = [])
   \<and> (MeshCIDRRanges (getConfigMap c) = '''' \<longrightarrow> GetMeshCIDRRanges c = [])
   \<and> GetMeshCIDRRanges (clientWithRanges ''10.0.0.0/8, not-a-cidr, 192.168.1.0/24'')
       = [''10.0.0.0/8'', ''192.168.1.0/24'']"
proof (intro conjI impI)
  show s: "set (GetMeshCIDRRanges c) = {t \<in> set (trimmedCIDRs c). ParseCIDR t \<noteq> None}"
    by (rule GetMeshCIDRRanges_set)
  show "GetMeshCIDRRanges c = []" if "\<forall>t\<in>set (trimmedCIDRs c). ParseCIDR t = None"
  proof -
    have "set (GetMeshCIDRRanges c) = {}" using s that by auto
    then show ?thesis by simp
  qed
  show "GetMeshCIDRRanges c = []" if "MeshCIDRRanges (getConfigMap c) = ''''"
    using that by (simp add: GetMeshCIDRRanges_def ReplaceAll_def Trim_def)
  show "GetMeshCIDRRanges (clientWithRanges ''10.0.0.0/8, not-a-cidr, 192.168.1.0/24'')
       = [''10.0.0.0/8'', ''192.168.1.0/24'']"
    by code_simp
qed

theorem GetMeshCIDRRanges_skips_invalid_witness:
  "trimmedCIDRs (clientWithRanges ''not-a-cidr, 10.0.0.0/33'') = [''not-a-cidr'', ''10.0.0.0/33'']
   \<and> GetMeshCIDRRanges (clientWithRanges ''not-a-cidr, 10.0.0.0/33'') = []
   \<and> GetMeshCIDRRanges (clientWithRanges '''') = []"
proof -
  have t: "trimmedCIDRs (clientWithRanges ''not-a-cidr, 10.0.0.0/33'') = [''not-a-cidr'', ''10.0.0.0/33'']"
    by code_simp
  have n: "\<forall>t\<in>set (trimmedCIDRs (clientWithRanges ''not-a-cidr, 10.0.0.0/33'')). ParseCIDR t = None"
    unfolding t by code_simp
  have e: "MeshCIDRRanges (getConfigMap (clientWithRanges '''')) = ''''"
    by (simp add: clientWithRanges_def clientWith_def getConfigMap_def)
  from GetMeshCIDRRanges_skips_invalid [of "clientWithRanges ''not-a-cidr, 10.0.0.0/33''"] n
    GetMeshCIDRRanges_skips_invalid [of "clientWithRanges ''''"] e t
  show ?thesis by blast
qed

text \<open>
  C4. Comma and space both delimit the items and empty tokens are discarded: the
  tokens that \<open>GetMeshCIDRRanges\<close> validates are the non-empty runs of bytes between
  commas and spaces, and its result is the specification's \<open>normalize\<close> of the raw list.
  The raw list \<open>10.0.0.0/8, 192.168.0.0/16  10.0.0.0/8\<close> gives \<open>10.0.0.0/8\<close> and
  \<open>192.168.0.0/16\<close>.
\<close>

theorem GetMeshCIDRRanges_delimiters:
  "trimmedCIDRs c = spec_tokens (MeshCIDRRanges (getConfigMap c))
   \<and> GetMeshCIDRRanges c = spec_normalize (MeshCIDRRanges (getConfigMap c))
   \<and> GetMeshCIDRRanges (clientWithRanges ''10.0.0.0/8, 192.168.0.0/16  10.0.0.0/8'')
       = [''10.0.0.0/8'', ''192.168.0.0/16'']"
proof (intro conjI)
  show "trimmedCIDRs c = spec_tokens (MeshCIDRRanges (getConfigMap c))"
    by (rule trimmedCIDRs_spec)
  show "GetMeshCIDRRanges c = spec_normalize (MeshCIDRRanges (getConfigMap c))"
    by (simp add: GetMeshCIDRRanges_eq trimmedCIDRs_spec spec_normalize_def)
  show "GetMeshCIDRRanges (clientWithRanges ''10.0.0.0/8, 192.168.0.0/16  10.0.0.0/8'')
       = [''10.0.0.0/8'', ''192.168.0.0/16'']"
    by code_simp
qed

text \<open>
  C5. Normalization is idempotent: when the result of \<open>GetMeshCIDRRanges\<close> is joined
  with commas and installed as the raw list of the configuration, \<open>GetMeshCIDRRanges\<close>
  returns the same sequence again.
\<close>

theorem GetMeshCIDRRanges_idempotent:
  "GetMeshCIDRRanges
     (c\<lparr>configMap := (configMap c)\<lparr>MeshCIDRRanges := Join (GetMeshCIDRRanges c) '',''\<rparr>\<rparr>)
   = GetMeshCIDRRanges c"
proof (rule sorted_distinct_eqI)
  let ?c' = "c\<lparr>configMap := (configMap c)\<lparr>MeshCIDRRanges := Join (GetMeshCIDRRanges c) '',''\<rparr>\<rparr>"
  have raw: "MeshCIDRRanges (getConfigMap ?c') = Join (GetMeshCIDRRanges c) '',''"
    by (simp add: getConfigMap_def)
  have "spec_tokens (Join (GetMeshCIDRRanges c) '','') = GetMeshCIDRRanges c"
    by (rule spec_tokens_Join) (use GetMeshCIDRRanges_member in blast)
  then have "set (GetMeshCIDRRanges ?c') = {t \<in> set (GetMeshCIDRRanges c). ParseCIDR t \<noteq> None}"
    by (simp add: GetMeshCIDRRanges_spec_set raw)
  also have "\<dots> = set (GetMeshCIDRRanges c)"
    using GetMeshCIDRRanges_member by blast
  finally show "set (GetMeshCIDRRanges ?c') = set (GetMeshCIDRRanges c)" .
qed (simp_all add: GetMeshCIDRRanges_distinct GetMeshCIDRRanges_sorted)

text \<open>
  C9, as the claim states it, fails: only the space is removed around a token. A tab
  stays in the token, and the token \<open>10.0.0.0/8\<close> between two tabs does not reach the
  result.
\<close>

theorem tab_not_trimmed_counterexample:
  "ParseCIDR ''10.0.0.0/8'' \<noteq> None
   \<and> trimmedCIDRs (clientWithRanges (CHR 0x09 # ''10.0.0.0/8'' @ [CHR 0x09]))
       = [CHR 0x09 # ''10.0.0.0/8'' @ [CHR 0x09]]
   \<and> ''10.0.0.0/8'' \<notin> set (GetMeshCIDRRanges (clientWithRanges (CHR 0x09 # ''10.0.0.0/8'' @ [CHR 0x09])))
   \<and> GetMeshCIDRRanges (clientWithRanges (CHR 0x09 # ''10.0.0.0/8'' @ [CHR 0x09])) = []"
  by code_simp

text \<open>
  C9, amended. Spaces around a token are removed before it is validated (a space is a
  delimiter, and the cutset of the trim is the space alone): a token that \<open>ParseCIDR\<close>
  accepts and that stands alone between any number of spaces is the result, and one
  that stands between two spaces anywhere in the raw list is in the result.
\<close>

theorem spaces_trimmed:
  assumes "ParseCIDR t \<noteq> None"
  shows "(MeshCIDRRanges (getConfigMap c) = replicate m CHR '' '' @ t @ replicate n CHR '' '' \<longrightarrow>
            GetMeshCIDRRanges c = [t])
         \<and> (MeshCIDRRanges (getConfigMap c) = pre @ CHR '' '' # t @ CHR '' '' # post \<longrightarrow>
            t \<in> set (GetMeshCIDRRanges c))"
proof (intro conjI impI)
  from assms obtain r where r: "ParseCIDR t = Some r" by auto
  have nd: "\<forall>ch\<in>set t. \<not> isDelimiter ch" using r by (rule ParseCIDR_no_delimiter)
  have ne: "t \<noteq> []" using r by (rule ParseCIDR_not_Nil)
  have sp: "isDelimiter CHR '' ''" by (simp add: isDelimiter_def)
  show "GetMeshCIDRRanges c = [t]"
    if raw: "MeshCIDRRanges (getConfigMap c) = replicate m CHR '' '' @ t @ replicate n CHR '' ''"
  proof -
    have "spec_tokens (MeshCIDRRanges (getConfigMap c)) = [t]"
      unfolding raw spec_tokens_def
      by (simp add: spec_tokens_from_spaces spec_tokens_from_token [OF nd]
          spec_tokens_from_spaces_end ne)
    then have "set (GetMeshCIDRRanges c) = set [t]"
      using assms by (auto simp: GetMeshCIDRRanges_spec_set)
    with GetMeshCIDRRanges_distinct [of c] GetMeshCIDRRanges_sorted [of c]
    show ?thesis by (intro sorted_distinct_eqI) simp_all
  qed
  show "t \<in> set (GetMeshCIDRRanges c)"
    if raw: "MeshCIDRRanges (getConfigMap c) = pre @ CHR '' '' # t @ CHR '' '' # post"
  proof -
    have "spec_tokens (MeshCIDRRanges (getConfigMap c)) =
        spec_tokens_from [] pre @ [t] @ spec_tokens_from [] post"
      unfolding raw spec_tokens_def
      using spec_tokens_from_delim [OF sp, of "[]" pre "t @ CHR '' '' # post"]
        spec_tokens_from_delim [OF sp, of "[]" t post]
      by (simp add: spec_tokens_from_single [OF ne nd])
    then show ?thesis using assms by (simp add: GetMeshCIDRRanges_spec_set)
  qed
qed

theorem spaces_trimmed_witness:
  "ParseCIDR ''10.0.0.0/8'' \<noteq> None
   \<and> GetMeshCIDRRanges (clientWithRanges ''   10.0.0.0/8  '') = [''10.0.0.0/8'']
   \<and> ''10.0.0.0/8'' \<in> set (GetMeshCIDRRanges (clientWithRanges ''fd00::/8, 10.0.0.0/8 ,''))"
proof -
  have v: "ParseCIDR ''10.0.0.0/8'' \<noteq> None" by code_simp
  have a: "MeshCIDRRanges (getConfigMap (clientWithRanges ''   10.0.0.0/8  ''))
        = replicate 3 CHR '' '' @ ''10.0.0.0/8'' @ replicate 2 CHR '' ''"
    by (simp add: clientWithRanges_def clientWith_def getConfigMap_def numeral_3_eq_3 numeral_2_eq_2)
  have b: "MeshCIDRRanges (getConfigMap (clientWithRanges ''fd00::/8, 10.0.0.0/8 ,''))
        = ''fd00::/8,'' @ CHR '' '' # ''10.0.0.0/8'' @ CHR '' '' # '',''"
    by (simp add: clientWithRanges_def clientWith_def getConfigMap_def)
  from spaces_trimmed [OF v, of "clientWithRanges ''   10.0.0.0/8  ''" 3 2] a
    spaces_trimmed [OF v, of "clientWithRanges ''fd00::/8, 10.0.0.0/8 ,''" _ _ "''fd00::/8,''" "'',''"] b v
  show ?thesis by blast
qed

text \<open>
  C10. \<open>GetMeshCIDRRanges\<close> validates tokens and never rewrites them: every element of
  its result is one of the trimmed tokens and stands in the raw list byte for byte.
  \<open>ParseCIDR\<close> accepts \<open>10.0.0.1/8\<close>, whose network is \<open>10.0.0.0\<close>, and the result
  holds \<open>10.0.0.1/8\<close> as it was written, not \<open>10.0.0.0/8\<close>.
\<close>

theorem GetMeshCIDRRanges_verbatim:
  "(\<forall>x\<in>set (GetMeshCIDRRanges c).
      x \<in> set (trimmedCIDRs c) \<and> (\<exists>pre post. MeshCIDRRanges (getConfigMap c) = pre @ x @ post))
   \<and> ParseCIDR ''10.0.0.1/8''
       = Some (IPv4 10 0 0 1, \<lparr>IP = [10, 0, 0, 0], Mask = [0xff, 0, 0, 0]\<rparr>)
   \<and> GetMeshCIDRRanges (clientWithRanges ''10.0.0.1/8'') = [''10.0.0.1/8'']
   \<and> GetMeshCIDRRanges (clientWithRanges ''10.0.0.1/8'') \<noteq> [''10.0.0.0/8'']"
proof (intro conjI ballI)
  fix x
  assume x: "x \<in> set (GetMeshCIDRRanges c)"
  then show "x \<in> set (trimmedCIDRs c)" by (simp add: GetMeshCIDRRanges_set)
  then have "x \<in> set (spec_tokens_from [] (MeshCIDRRanges (getConfigMap c)))"
    by (simp add: trimmedCIDRs_spec spec_tokens_def)
  from spec_tokens_from_substring [OF this]
  show "\<exists>pre post. MeshCIDRRanges (getConfigMap c) = pre @ x @ post" by simp
next
  show "ParseCIDR ''10.0.0.1/8''
       = Some (IPv4 10 0 0 1, \<lparr>IP = [10, 0, 0, 0], Mask = [0xff, 0, 0, 0]\<rparr>)"
    by code_simp
  show r: "GetMeshCIDRRanges (clientWithRanges ''10.0.0.1/8'') = [''10.0.0.1/8'']"
    by code_simp
  show "GetMeshCIDRRanges (clientWithRanges ''10.0.0.1/8'') \<noteq> [''10.0.0.0/8'']"
    unfolding r by simp
qed

theorem GetMeshCIDRRanges_verbatim_witness:
  "GetMeshCIDRRanges (clientWithRanges ''10.0.0.1/8 10.0.0.0/8'') = [''10.0.0.0/8'', ''10.0.0.1/8'']
   \<and> ''10.0.0.1/8'' \<in> set (trimmedCIDRs (clientWithRanges ''10.0.0.1/8 10.0.0.0/8''))
   \<and> (\<exists>pre post. ''10.0.0.1/8 10.0.0.0/8'' = pre @ ''10.0.0.1/8'' @ post)"
proof -
  have r: "GetMeshCIDRRanges (clientWithRanges ''10.0.0.1/8 10.0.0.0/8'') = [''10.0.0.0/8'', ''10.0.0.1/8'']"
    by code_simp
  have m: "MeshCIDRRanges (getConfigMap (clientWithRanges ''10.0.0.1/8 10.0.0.0/8'')) = ''10.0.0.1/8 10.0.0.0/8''"
    by (simp add: clientWithRanges_def clientWith_def getConfigMap_def)
  from GetMeshCIDRRanges_verbatim [of "clientWithRanges ''10.0.0.1/8 10.0.0.0/8''"] r
  show ?thesis unfolding m by simp
qed

subsection \<open>The accessors with a default\<close>

text \<open>
  C6. When the tracing address of the configuration is empty, which is also its absent
  state, \<open>GetTracingHost\<close> returns the default host, a dot, the namespace of the
  controller and \<open>.svc.cluster.local\<close>; in the namespace \<open>osm-system\<close> that is the
  default host followed by \<open>.osm-system.svc.cluster.local\<close>. When the address is set,
  \<open>GetTracingHost\<close> returns it.
\<close>

theorem GetTracingHost_default:
  "(TracingAddress (getConfigMap c) = '''' \<longrightarrow>
      GetTracingHost k c = DefaultTracingHost k @ ''.'' @ osmNamespace c @ ''.svc.cluster.local'')
   \<and> (TracingAddress (getConfigMap c) = '''' \<and> osmNamespace c = ''osm-system'' \<longrightarrow>
      GetTracingHost k c = DefaultTracingHost k @ ''.osm-system.svc.cluster.local'')
   \<and> (TracingAddress (getConfigMap c) \<noteq> '''' \<longrightarrow>
      GetTracingHost k c = TracingAddress (getConfigMap c))"
  by (simp add: GetTracingHost_def GetOSMNamespace_def)

theorem GetTracingHost_default_witness:
  "GetTracingHost osmConstants (clientWith zeroConfig) = ''jaeger.osm-system.svc.cluster.local''
   \<and> GetTracingHost osmConstants (clientWith (zeroConfig\<lparr>TracingAddress := ''zipkin.tracing''\<rparr>))
       = ''zipkin.tracing''"
proof -
  have a: "TracingAddress (getConfigMap (clientWith zeroConfig)) = ''''"
    "osmNamespace (clientWith zeroConfig) = ''osm-system''"
    by (simp_all add: clientWith_def zeroConfig_def getConfigMap_def)
  have b: "TracingAddress (getConfigMap (clientWith (zeroConfig\<lparr>TracingAddress := ''zipkin.tracing''\<rparr>)))
       = ''zipkin.tracing''"
    by (simp add: clientWith_def zeroConfig_def getConfigMap_def)
  from GetTracingHost_default [of "clientWith zeroConfig" osmConstants] a
    GetTracingHost_default [of "clientWith (zeroConfig\<lparr>TracingAddress := ''zipkin.tracing''\<rparr>)" osmConstants] b
  show ?thesis by (simp add: osmConstants_def)
qed

text \<open>
  C7. When the tracing port of the configuration is zero, which is also its absent
  state, \<open>GetTracingPort\<close> returns the default port; when it is not zero,
  \<open>GetTracingPort\<close> returns that number, and 9412 for the port 9412.
\<close>

theorem GetTracingPort_default:
  "(TracingPort (getConfigMap c) = 0 \<longrightarrow> GetTracingPort k c = DefaultTracingPort k)
   \<and> (TracingPort (getConfigMap c) \<noteq> 0 \<longrightarrow>
        GetTracingPort k c = ucast (TracingPort (getConfigMap c))
        \<and> unat (GetTracingPort k c) = unat (TracingPort (getConfigMap c)))
   \<and> (TracingPort (getConfigMap c) = 9412 \<longrightarrow> GetTracingPort k c = 9412)"
proof -
  have "unat (ucast w :: 32 word) = unat w" for w :: "16 word"
  proof -
    have "unat w < 2 ^ 32" using unsigned_less [of w, where 'a = nat] by simp
    then show ?thesis by (simp add: unsigned_ucast_eq take_bit_nat_eq_self)
  qed
  then show ?thesis by (simp add: GetTracingPort_def)
qed

theorem GetTracingPort_default_witness:
  "GetTracingPort osmConstants (clientWith zeroConfig) = 9411
   \<and> GetTracingPort osmConstants (clientWith (zeroConfig\<lparr>TracingPort := 9412\<rparr>)) = 9412"
proof -
  have a: "TracingPort (getConfigMap (clientWith zeroConfig)) = 0"
    by (simp add: clientWith_def zeroConfig_def getConfigMap_def)
  have b: "TracingPort (getConfigMap (clientWith (zeroConfig\<lparr>TracingPort := 9412\<rparr>))) = 9412"
    by (simp add: clientWith_def zeroConfig_def getConfigMap_def)
  from GetTracingPort_default [of "clientWith zeroConfig" osmConstants] a
    GetTracingPort_default [of "clientWith (zeroConfig\<lparr>TracingPort := 9412\<rparr>)" osmConstants] b
  show ?thesis by (simp add: osmConstants_def)
qed

text \<open>
  C8, as the claim states it, fails: the three texts have no absent state apart from
  the empty string. A configuration where they are set to the empty string is the zero
  configuration, and each accessor returns its default for it, not the empty string.
\<close>

theorem explicit_empty_falls_back_counterexample:
  "zeroConfig\<lparr>TracingAddress := '''', TracingEndpoint := '''', EnvoyLogLevel := ''''\<rparr> = zeroConfig
   \<and> GetTracingHost osmConstants (clientWith (zeroConfig\<lparr>TracingAddress := ''''\<rparr>))
       = ''jaeger.osm-system.svc.cluster.local''
   \<and> GetTracingHost osmConstants (clientWith (zeroConfig\<lparr>TracingAddress := ''''\<rparr>)) \<noteq> ''''
   \<and> GetTracingEndpoint osmConstants (clientWith (zeroConfig\<lparr>TracingEndpoint := ''''\<rparr>))
       = ''/api/v2/spans''
   \<and> GetTracingEndpoint osmConstants (clientWith (zeroConfig\<lparr>TracingEndpoint := ''''\<rparr>)) \<noteq> ''''
   \<and> GetEnvoyLogLevel osmConstants (clientWith (zeroConfig\<lparr>EnvoyLogLevel := ''''\<rparr>)) = ''error''
   \<and> GetEnvoyLogLevel osmConstants (clientWith (zeroConfig\<lparr>EnvoyLogLevel := ''''\<rparr>)) \<noteq> ''''"
  by (simp add: GetTracingHost_def GetTracingEndpoint_def GetEnvoyLogLevel_def GetOSMNamespace_def
      getConfigMap_def clientWith_def zeroConfig_def osmConstants_def)

text \<open>
  C8, amended. The tracing address, the tracing endpoint and the log level of the proxy
  are strings whose absent state is the empty string: each accessor returns its default
  when the field is empty, set so or never set, and the field itself otherwise.
\<close>

theorem empty_string_falls_back:
  "GetTracingHost k c =
     (if TracingAddress (getConfigMap c) = ''''
      then DefaultTracingHost k @ ''.'' @ osmNamespace c @ ''.svc.cluster.local''
      else TracingAddress (getConfigMap c))
   \<and> GetTracingEndpoint k c =
     (if TracingEndpoint (getConfigMap c) = '''' then DefaultTracingEndpoint k
      else TracingEndpoint (getConfigMap c))
   \<and> GetEnvoyLogLevel k c =
     (if EnvoyLogLevel (getConfigMap c) = '''' then DefaultEnvoyLogLevel k
      else EnvoyLogLevel (getConfigMap c))"
  by (simp add: GetTracingHost_def GetTracingEndpoint_def GetEnvoyLogLevel_def GetOSMNamespace_def)

theorem empty_string_falls_back_witness:
  "GetTracingEndpoint osmConstants (clientWith zeroConfig) = ''/api/v2/spans''
   \<and> GetEnvoyLogLevel osmConstants (clientWith (zeroConfig\<lparr>EnvoyLogLevel := ''debug''\<rparr>)) = ''debug''"
  using empty_string_falls_back [of osmConstants "clientWith zeroConfig"]
    empty_string_falls_back [of osmConstants "clientWith (zeroConfig\<lparr>EnvoyLogLevel := ''debug''\<rparr>)"]
  by (simp add: getConfigMap_def clientWith_def zeroConfig_def osmConstants_def)

end
